theory Spec2Isabelle
  imports Complex_Main
begin

section \<open>Wumpus World environment (wumpus\_env.py)\<close>

subsection \<open>Actions, directions, positions, percepts\<close>

datatype action = FORWARD | TURN_LEFT | TURN_RIGHT | SHOOT | GRAB | CLIMB

datatype direction = N | E | S | W

fun left :: "direction \<Rightarrow> direction" where
  "left N = W"
| "left W = S"
| "left S = E"
| "left E = N"

fun right :: "direction \<Rightarrow> direction" where
  "right N = E"
| "right E = S"
| "right S = W"
| "right W = N"

text \<open>
  The frozen dataclass \<open>Pos\<close> with the integer fields \<open>x\<close> and \<open>y\<close>; the selectors are
  called \<open>pos_x\<close> and \<open>pos_y\<close> so that \<open>x\<close> and \<open>y\<close> stay free for variables.
\<close>

datatype pos = Pos (pos_x: int) (pos_y: int)

definition neighbors_4 :: "pos \<Rightarrow> pos list" where
  "neighbors_4 p =
     [Pos (pos_x p + 1) (pos_y p),
      Pos (pos_x p - 1) (pos_y p),
      Pos (pos_x p) (pos_y p + 1),
      Pos (pos_x p) (pos_y p - 1)]"

record percept =
  stench :: bool
  breeze :: bool
  glitter :: bool
  bump :: bool
  scream :: bool
  reward :: int

subsection \<open>The random source\<close>

text \<open>
  \<open>random.Random(seed)\<close> belongs to Python's standard library, not to this repository.
  It is modelled by the sequence of raw draws the seeded generator is going to deliver
  (zeros once the list is used up), so that every sequence of outcomes is covered.
  \<open>rng.choice\<close> raises \<open>IndexError\<close> on an empty sequence and otherwise returns the element
  at an index below the length; \<open>rng.random\<close> returns a multiple of \<open>2\<^sup>-\<^sup>5\<^sup>3\<close> in \<open>[0, 1)\<close>.
\<close>

type_synonym rng_state = "nat list"

datatype error = IndexError

definition next_draw :: "rng_state \<Rightarrow> nat \<times> rng_state" where
  "next_draw g = (case g of [] \<Rightarrow> (0, []) | n # g' \<Rightarrow> (n, g'))"

definition rng_choice :: "rng_state \<Rightarrow> 'a list \<Rightarrow> error + ('a \<times> rng_state)" where
  "rng_choice g seq =
     (if seq = [] then Inl IndexError
      else (let (n, g') = next_draw g in Inr (seq ! (n mod length seq), g')))"

definition rng_random :: "rng_state \<Rightarrow> rat \<times> rng_state" where
  "rng_random g =
     (let (n, g') = next_draw g
      in (of_nat (n mod 9007199254740992) / 9007199254740992, g'))"

subsection \<open>The environment\<close>

text \<open>
  The attributes of \<open>WumpusWorldEnv\<close>. Python's integers are unbounded (\<open>int\<close>); the finite
  values of the float \<open>pit_prob\<close> are rationals, and \<open>rng.random() < pit_prob\<close> compares
  them exactly.
\<close>

record env =
  width :: int
  height :: int
  allow_climb_without_gold :: bool
  pit_prob :: rat
  rng :: rng_state
  agent_pos :: pos
  agent_dir :: direction
  gold_pos :: pos
  wumpus_pos :: pos
  wumpus_alive :: bool
  pits :: "pos set"
  has_gold :: bool
  arrow_available :: bool
  terminated :: bool
  dead :: bool
  last_bump :: bool
  last_scream :: bool
  steps :: int
  total_reward :: int

definition in_bounds :: "env \<Rightarrow> pos \<Rightarrow> bool" where
  "in_bounds e p \<longleftrightarrow> 1 \<le> pos_x p \<and> pos_x p \<le> width e \<and> 1 \<le> pos_y p \<and> pos_y p \<le> height e"

text \<open>
  \<open>_random_non_start_pos\<close> runs inside \<open>__init__\<close>, when only the dimensions and the
  generator are set, so it takes those.
\<close>

definition random_non_start_pos :: "int \<Rightarrow> int \<Rightarrow> rng_state \<Rightarrow> error + (pos \<times> rng_state)" where
  "random_non_start_pos w h g =
     (let cells = [Pos x y. x \<leftarrow> [1..w], y \<leftarrow> [1..h], \<not> (x = 1 \<and> y = 1)]
      in rng_choice g cells)"

text \<open>
  \<open>_place_pits\<close>: the two nested loops visit the cells column by column; the generator is
  asked only for a cell other than the start cell (\<open>and\<close> short-circuits).
\<close>

fun place_pits_loop :: "rat \<Rightarrow> pos list \<Rightarrow> pos set \<Rightarrow> rng_state \<Rightarrow> pos set \<times> rng_state" where
  "place_pits_loop pp [] ps g = (ps, g)"
| "place_pits_loop pp (p # cs) ps g =
     (if p \<noteq> Pos 1 1
      then (let (u, g') = rng_random g
            in place_pits_loop pp cs (if u < pp then insert p ps else ps) g')
      else place_pits_loop pp cs ps g)"

definition place_pits :: "int \<Rightarrow> int \<Rightarrow> rat \<Rightarrow> rng_state \<Rightarrow> pos set \<times> rng_state" where
  "place_pits w h pp g = place_pits_loop pp [Pos x y. x \<leftarrow> [1..w], y \<leftarrow> [1..h]] {} g"

text \<open>
  \<open>__init__\<close>. The argument \<open>g\<close> is the generator that \<open>random.Random(seed)\<close> returns. An
  exception raised while sampling the gold or the wumpus leaves the constructor.
\<close>

definition init :: "int \<Rightarrow> int \<Rightarrow> bool \<Rightarrow> rat \<Rightarrow> rng_state \<Rightarrow> error + env" where
  "init w h allow pp g =
     (case random_non_start_pos w h g of
        Inl err \<Rightarrow> Inl err
      | Inr (gold, g1) \<Rightarrow>
          (case random_non_start_pos w h g1 of
             Inl err \<Rightarrow> Inl err
           | Inr (wumpus, g2) \<Rightarrow>
               (let (ps, g3) = place_pits w h pp g2
                in Inr \<lparr> width = w, height = h,
                         allow_climb_without_gold = allow,
                         pit_prob = pp,
                         rng = g3,
                         agent_pos = Pos 1 1,
                         agent_dir = E,
                         gold_pos = gold,
                         wumpus_pos = wumpus,
                         wumpus_alive = True,
                         pits = ps,
                         has_gold = False,
                         arrow_available = True,
                         terminated = False,
                         dead = False,
                         last_bump = False,
                         last_scream = False,
                         steps = 0,
                         total_reward = 0 \<rparr>)))"

fun forward_pos :: "pos \<Rightarrow> direction \<Rightarrow> pos" where
  "forward_pos p N = Pos (pos_x p) (pos_y p + 1)"
| "forward_pos p S = Pos (pos_x p) (pos_y p - 1)"
| "forward_pos p E = Pos (pos_x p + 1) (pos_y p)"
| "forward_pos p W = Pos (pos_x p - 1) (pos_y p)"

definition is_terminal :: "env \<Rightarrow> bool" where
  "is_terminal e = terminated e"

definition stench_at :: "env \<Rightarrow> pos \<Rightarrow> bool" where
  "stench_at e p =
     (if p = wumpus_pos e then True
      else list_ex (\<lambda>n. n = wumpus_pos e) (filter (in_bounds e) (neighbors_4 p)))"

definition breeze_at :: "env \<Rightarrow> pos \<Rightarrow> bool" where
  "breeze_at e p = list_ex (\<lambda>n. n \<in> pits e) (filter (in_bounds e) (neighbors_4 p))"

definition get_percept :: "env \<Rightarrow> int \<Rightarrow> percept" where
  "get_percept e reward_override =
     \<lparr> stench = stench_at e (agent_pos e),
       breeze = breeze_at e (agent_pos e),
       glitter = (agent_pos e = gold_pos e),
       bump = last_bump e,
       scream = last_scream e,
       reward = reward_override \<rparr>"

subsection \<open>Shooting\<close>

text \<open>
  The \<open>while True\<close> loop of \<open>_shoot_arrow\<close>, started at \<open>p\<close>. It goes on only from a cell
  inside the grid, and each round moves one cell further along the facing direction, so the
  distance to the wall in that direction decreases.
\<close>

function shoot_arrow_loop :: "env \<Rightarrow> pos \<Rightarrow> bool" where
  "shoot_arrow_loop e p =
     (let p' = forward_pos p (agent_dir e)
      in if \<not> in_bounds e p' then False
         else if p' = wumpus_pos e \<and> wumpus_alive e then True
         else shoot_arrow_loop e p')"
  by pat_completeness auto

definition wall_distance :: "env \<Rightarrow> pos \<Rightarrow> nat" where
  "wall_distance e p =
     (case agent_dir e of
        N \<Rightarrow> nat (height e + 1 - pos_y p)
      | S \<Rightarrow> nat (pos_y p)
      | E \<Rightarrow> nat (width e + 1 - pos_x p)
      | W \<Rightarrow> nat (pos_x p))"

termination shoot_arrow_loop
proof (relation "measure (\<lambda>(e, p). wall_distance e p)")
  show "wf (measure (\<lambda>(e, p). wall_distance e p))"
    by simp
next
  fix e :: env and p p' :: pos
  assume "p' = forward_pos p (agent_dir e)" and "\<not> \<not> in_bounds e p'"
  then show "((e, p'), (e, p)) \<in> measure (\<lambda>(e, p). wall_distance e p)"
    by (cases "agent_dir e") (auto simp: wall_distance_def in_bounds_def)
qed

declare shoot_arrow_loop.simps [simp del]

definition shoot_arrow :: "env \<Rightarrow> bool" where
  "shoot_arrow e = shoot_arrow_loop e (agent_pos e)"

subsection \<open>One step\<close>

text \<open>
  \<open>step\<close> in the parts its comments name: the counters and transient flags, the
  dispatch on the action, the death check, and the accumulation of the reward, which is
  threaded through.
\<close>

definition begin_step :: "env \<Rightarrow> env" where
  "begin_step e = e\<lparr>steps := steps e + 1, last_bump := False, last_scream := False\<rparr>"

definition execute_action :: "action \<Rightarrow> env \<Rightarrow> int \<Rightarrow> env \<times> int" where
  "execute_action a e r =
     (case a of
        TURN_LEFT \<Rightarrow> (e\<lparr>agent_dir := left (agent_dir e)\<rparr>, r)
      | TURN_RIGHT \<Rightarrow> (e\<lparr>agent_dir := right (agent_dir e)\<rparr>, r)
      | FORWARD \<Rightarrow>
          (let nxt = forward_pos (agent_pos e) (agent_dir e)
           in if in_bounds e nxt then (e\<lparr>agent_pos := nxt\<rparr>, r)
              else (e\<lparr>last_bump := True\<rparr>, r))
      | GRAB \<Rightarrow>
          (if agent_pos e = gold_pos e then (e\<lparr>has_gold := True\<rparr>, r) else (e, r))
      | SHOOT \<Rightarrow>
          (if arrow_available e
           then (let e1 = e\<lparr>arrow_available := False\<rparr>; r1 = r - 10
                 in if shoot_arrow e1
                    then (e1\<lparr>wumpus_alive := False, last_scream := True\<rparr>, r1)
                    else (e1, r1))
           else (e, r))
      | CLIMB \<Rightarrow>
          (if agent_pos e = Pos 1 1
           then (if allow_climb_without_gold e \<or> has_gold e
                 then (e\<lparr>terminated := True\<rparr>, if has_gold e then r + 1000 else r)
                 else (e, r))
           else (e, r)))"

definition death_check :: "env \<Rightarrow> int \<Rightarrow> env \<times> int" where
  "death_check e r =
     (if \<not> terminated e
      then (if agent_pos e \<in> pits e
            then (e\<lparr>dead := True, terminated := True\<rparr>, r - 1000)
            else if agent_pos e = wumpus_pos e \<and> wumpus_alive e
            then (e\<lparr>dead := True, terminated := True\<rparr>, r - 1000)
            else (e, r))
      else (e, r))"

definition step :: "env \<Rightarrow> action \<Rightarrow> percept \<times> env" where
  "step e a =
     (if terminated e then (get_percept e 0, e)
      else (let e1 = begin_step e;
                (e2, r2) = execute_action a e1 (- 1);
                (e3, r3) = death_check e2 r2;
                e4 = e3\<lparr>total_reward := total_reward e3 + r3\<rparr>
            in (get_percept e4 r3, e4)))"

subsection \<open>Bounded ray trace and reachable states\<close>

text \<open>
  The loop of \<open>_shoot_arrow\<close> once more, with a bound on the number of rounds: \<open>None\<close>
  when the bound is used up before the loop returns.
\<close>

fun shoot_arrow_fuel :: "nat \<Rightarrow> env \<Rightarrow> pos \<Rightarrow> bool option" where
  "shoot_arrow_fuel 0 e p = None"
| "shoot_arrow_fuel (Suc n) e p =
     (let p' = forward_pos p (agent_dir e)
      in if \<not> in_bounds e p' then Some False
         else if p' = wumpus_pos e \<and> wumpus_alive e then Some True
         else shoot_arrow_fuel n e p')"

text \<open>
  The states an environment can be in: what a successful construction returns, and what
  \<open>step\<close> makes of such a state.
\<close>

inductive reachable :: "env \<Rightarrow> bool" where
  reachable_init: "init w h allow pp g = Inr e \<Longrightarrow> reachable e"
| reachable_step: "reachable e \<Longrightarrow> reachable (snd (step e a))"

text \<open>
  What holds in every such state: the agent is on the grid, and while the episode runs it
  is alive and stands on no pit and not on the live wumpus.
\<close>

definition env_inv :: "env \<Rightarrow> bool" where
  "env_inv e \<longleftrightarrow>
     in_bounds e (agent_pos e) \<and>
     (terminated e \<or>
      (agent_pos e \<notin> pits e \<and> (agent_pos e \<noteq> wumpus_pos e \<or> \<not> wumpus_alive e) \<and> \<not> dead e))"

subsection \<open>Two small worlds and action sequences\<close>

text \<open>
  Two \<open>2 \<times> 2\<close> worlds as \<open>__init__\<close> builds them, used as concrete inputs below: one where
  every cell but the start is a pit and the wumpus is in front of the agent, one without
  pits, in strict mode, with the gold in front of the agent. \<open>run_actions\<close> is the driving
  loop calling \<open>step\<close> for each action of a list.
\<close>

definition pit_world :: env where
  "pit_world =
     \<lparr> width = 2, height = 2, allow_climb_without_gold = True, pit_prob = 1, rng = [],
       agent_pos = Pos 1 1, agent_dir = E, gold_pos = Pos 1 2, wumpus_pos = Pos 2 1,
       wumpus_alive = True, pits = {Pos 2 2, Pos 2 1, Pos 1 2}, has_gold = False,
       arrow_available = True, terminated = False, dead = False, last_bump = False,
       last_scream = False, steps = 0, total_reward = 0 \<rparr>"

definition quiet_world :: env where
  "quiet_world =
     \<lparr> width = 2, height = 2, allow_climb_without_gold = False, pit_prob = 0, rng = [],
       agent_pos = Pos 1 1, agent_dir = E, gold_pos = Pos 2 1, wumpus_pos = Pos 2 2,
       wumpus_alive = True, pits = {}, has_gold = False,
       arrow_available = True, terminated = False, dead = False, last_bump = False,
       last_scream = False, steps = 0, total_reward = 0 \<rparr>"

fun run_actions :: "env \<Rightarrow> action list \<Rightarrow> env" where
  "run_actions e [] = e"
| "run_actions e (a # as) = run_actions (snd (step e a)) as"

section \<open>Properties\<close>

subsection \<open>Construction\<close>

text \<open>The cells gold and wumpus are sampled from, and when there are none.\<close>

lemma set_non_start_cells:
  "set [Pos x y. x \<leftarrow> [1..w], y \<leftarrow> [1..h], \<not> (x = 1 \<and> y = 1)] =
     {p. 1 \<le> pos_x p \<and> pos_x p \<le> w \<and> 1 \<le> pos_y p \<and> pos_y p \<le> h \<and> p \<noteq> Pos 1 1}"
proof (rule set_eqI)
  fix p :: pos
  obtain a b where p: "p = Pos a b" by (cases p)
  show "p \<in> set [Pos x y. x \<leftarrow> [1..w], y \<leftarrow> [1..h], \<not> (x = 1 \<and> y = 1)] \<longleftrightarrow>
        p \<in> {p. 1 \<le> pos_x p \<and> pos_x p \<le> w \<and> 1 \<le> pos_y p \<and> pos_y p \<le> h \<and> p \<noteq> Pos 1 1}"
    unfolding p by auto
qed

lemma non_start_cells_empty:
  "[Pos x y. x \<leftarrow> [1..w], y \<leftarrow> [1..h], \<not> (x = 1 \<and> y = 1)] = [] \<longleftrightarrow>
     w \<le> 0 \<or> h \<le> 0 \<or> (w = 1 \<and> h = 1)"
    (is "?cells = [] \<longleftrightarrow> ?small")
proof
  assume "?cells = []"
  then have empty: "set ?cells = {}" by (simp only: list.set)
  show ?small
  proof (rule ccontr)
    assume "\<not> ?small"
    then have "1 \<le> w" "1 \<le> h" "2 \<le> w \<or> 2 \<le> h" by auto
    then have "Pos 2 1 \<in> set ?cells \<or> Pos 1 2 \<in> set ?cells"
      unfolding set_non_start_cells by auto
    with empty show False by (simp only: empty_iff simp_thms)
  qed
next
  assume ?small
  then have "set ?cells = {}"
    unfolding set_non_start_cells by (auto simp: pos.expand)
  then show "?cells = []" by (simp only: set_empty)
qed

lemma random_non_start_pos_fails:
  "random_non_start_pos w h g = Inl IndexError \<longleftrightarrow> w \<le> 0 \<or> h \<le> 0 \<or> (w = 1 \<and> h = 1)"
  unfolding random_non_start_pos_def rng_choice_def Let_def non_start_cells_empty [symmetric]
  by (simp split: prod.splits)

lemma random_non_start_pos_result:
  assumes "random_non_start_pos w h g = Inr (p, g')"
  shows "p \<noteq> Pos 1 1 \<and> 1 \<le> w \<and> 1 \<le> h"
proof -
  let ?cells = "[Pos x y. x \<leftarrow> [1..w], y \<leftarrow> [1..h], \<not> (x = 1 \<and> y = 1)]"
  from assms have ne: "?cells \<noteq> []" and p: "p = ?cells ! (fst (next_draw g) mod length ?cells)"
    unfolding random_non_start_pos_def rng_choice_def Let_def
    by (auto split: if_splits prod.splits)
  from ne have "fst (next_draw g) mod length ?cells < length ?cells"
    by simp
  then have "p \<in> set ?cells"
    unfolding p by (rule nth_mem)
  then show ?thesis
    unfolding set_non_start_cells by auto
qed

lemma place_pits_loop_no_start:
  "Pos 1 1 \<notin> ps \<Longrightarrow> Pos 1 1 \<notin> fst (place_pits_loop pp cs ps g)"
  by (induction pp cs ps g rule: place_pits_loop.induct) (auto split: prod.splits)

text \<open>The only way construction fails: there is no cell to put the gold in.\<close>

lemma init_fails_iff:
  "init w h allow pp g = Inl IndexError \<longleftrightarrow> w \<le> 0 \<or> h \<le> 0 \<or> (w = 1 \<and> h = 1)"
proof (cases "random_non_start_pos w h g")
  case (Inl err)
  then show ?thesis
    using random_non_start_pos_fails [of w h g] by (cases err) (simp add: init_def)
next
  case gold: (Inr a)
  obtain p g1 where a: "a = (p, g1)" by (cases a)
  from gold have ok: "\<not> (w \<le> 0 \<or> h \<le> 0 \<or> (w = 1 \<and> h = 1))"
    using random_non_start_pos_fails [of w h g] by simp
  have "random_non_start_pos w h g1 \<noteq> Inl IndexError"
    using ok random_non_start_pos_fails [of w h g1] by simp
  then obtain b where wumpus: "random_non_start_pos w h g1 = Inr b"
    by (cases "random_non_start_pos w h g1") (metis error.exhaust, blast)
  show ?thesis
    using ok gold wumpus a by (simp add: init_def split: prod.splits)
qed

subsection \<open>An invariant of the reachable states\<close>

lemma init_inv:
  assumes "init w h allow pp g = Inr e"
  shows "env_inv e"
proof -
  from assms obtain gold g1 wumpus g2 where
    gold: "random_non_start_pos w h g = Inr (gold, g1)" and
    wumpus: "random_non_start_pos w h g1 = Inr (wumpus, g2)" and
    e: "e = \<lparr> width = w, height = h, allow_climb_without_gold = allow, pit_prob = pp,
               rng = snd (place_pits w h pp g2), agent_pos = Pos 1 1, agent_dir = E,
               gold_pos = gold, wumpus_pos = wumpus, wumpus_alive = True,
               pits = fst (place_pits w h pp g2), has_gold = False, arrow_available = True,
               terminated = False, dead = False, last_bump = False, last_scream = False,
               steps = 0, total_reward = 0 \<rparr>"
    unfolding init_def by (auto split: sum.splits prod.splits)
  from random_non_start_pos_result [OF wumpus]
  have "wumpus \<noteq> Pos 1 1" "1 \<le> w" "1 \<le> h" by simp_all
  moreover have "Pos 1 1 \<notin> fst (place_pits w h pp g2)"
    unfolding place_pits_def by (rule place_pits_loop_no_start) simp
  ultimately show ?thesis
    unfolding e env_inv_def in_bounds_def by simp
qed

lemma in_bounds_frame [simp]:
  "in_bounds (e\<lparr>steps := a\<rparr>) p = in_bounds e p"
  "in_bounds (e\<lparr>last_bump := b\<rparr>) p = in_bounds e p"
  "in_bounds (e\<lparr>last_scream := b\<rparr>) p = in_bounds e p"
  "in_bounds (e\<lparr>agent_dir := d\<rparr>) p = in_bounds e p"
  "in_bounds (e\<lparr>agent_pos := q\<rparr>) p = in_bounds e p"
  "in_bounds (e\<lparr>has_gold := b\<rparr>) p = in_bounds e p"
  "in_bounds (e\<lparr>arrow_available := b\<rparr>) p = in_bounds e p"
  "in_bounds (e\<lparr>wumpus_alive := b\<rparr>) p = in_bounds e p"
  "in_bounds (e\<lparr>terminated := b\<rparr>) p = in_bounds e p"
  "in_bounds (e\<lparr>dead := b\<rparr>) p = in_bounds e p"
  "in_bounds (e\<lparr>total_reward := a\<rparr>) p = in_bounds e p"
  by (simp_all add: in_bounds_def)

lemma step_inv:
  assumes "env_inv e"
  shows "env_inv (snd (step e a))"
proof (cases "terminated e")
  case True
  with assms show ?thesis by (simp add: step_def)
next
  case False
  with assms show ?thesis
    by (cases a)
      (auto simp: step_def begin_step_def execute_action_def death_check_def env_inv_def Let_def
            split: if_splits)
qed

lemma reachable_inv: "reachable e \<Longrightarrow> env_inv e"
  by (induction rule: reachable.induct) (auto intro: init_inv step_inv)

subsection \<open>Evaluating the example worlds\<close>

lemmas init_eval =
  init_def random_non_start_pos_def rng_choice_def next_draw_def place_pits_def
  rng_random_def upto.simps

lemmas step_eval =
  step_def begin_step_def execute_action_def death_check_def get_percept_def
  stench_at_def breeze_at_def neighbors_4_def in_bounds_def Let_def

lemma init_pit_world: "init 2 2 True 1 [0, 1] = Inr pit_world"
  by (simp add: init_eval pit_world_def)

lemma init_quiet_world: "init 2 2 False 0 [1, 2] = Inr quiet_world"
  by (simp add: init_eval quiet_world_def)

lemma reachable_pit_world: "reachable pit_world"
  using init_pit_world by (rule reachable_init)

lemma reachable_quiet_world: "reachable quiet_world"
  using init_quiet_world by (rule reachable_init)

lemma reachable_run_actions: "reachable e \<Longrightarrow> reachable (run_actions e as)"
  by (induction as arbitrary: e) (auto intro: reachable_step)

subsection \<open>Facts shared by the statements below\<close>

lemma running_safe:
  assumes "reachable e" "\<not> terminated e"
  shows "in_bounds e (agent_pos e)" "agent_pos e \<notin> pits e"
    "agent_pos e \<noteq> wumpus_pos e \<or> \<not> wumpus_alive e" "\<not> dead e"
  using reachable_inv [OF assms(1)] assms(2) by (auto simp: env_inv_def)

lemma step_percept:
  "fst (step e a) = get_percept (snd (step e a)) (reward (fst (step e a)))"
  by (simp add: step_def get_percept_def Let_def split: prod.splits)


text \<open>
  The stench at a cell, with the four neighbours and the bounds written out; and what
  \<open>step\<close> never changes.
\<close>

lemma stench_at_cells:
  "stench_at e p \<longleftrightarrow>
     wumpus_pos e = p \<or>
     (1 \<le> pos_x (wumpus_pos e) \<and> pos_x (wumpus_pos e) \<le> width e \<and>
      1 \<le> pos_y (wumpus_pos e) \<and> pos_y (wumpus_pos e) \<le> height e \<and>
      wumpus_pos e \<in> {Pos (pos_x p + 1) (pos_y p), Pos (pos_x p - 1) (pos_y p),
                       Pos (pos_x p) (pos_y p + 1), Pos (pos_x p) (pos_y p - 1)})"
proof -
  obtain a b where p: "p = Pos a b" by (cases p)
  obtain c d where w: "wumpus_pos e = Pos c d" by (cases "wumpus_pos e")
  show ?thesis
    unfolding stench_at_def neighbors_4_def in_bounds_def p w
    by (simp, safe, simp_all)
qed

lemma step_frame:
  "wumpus_pos (snd (step e a)) = wumpus_pos e"
  "gold_pos (snd (step e a)) = gold_pos e"
  "width (snd (step e a)) = width e"
  "height (snd (step e a)) = height e"
  "pits (snd (step e a)) = pits e"
  by (cases a; simp add: step_def begin_step_def execute_action_def death_check_def Let_def)+

lemma step_bump_iff:
  assumes "reachable e" and "\<not> terminated e"
  shows "bump (fst (step e a)) \<longleftrightarrow>
           a = FORWARD \<and> \<not> in_bounds e (forward_pos (agent_pos e) (agent_dir e))"
  using running_safe [OF assms] assms(2)
  by (cases a)
    (auto simp: step_def begin_step_def execute_action_def death_check_def get_percept_def Let_def)

lemma wall_distance_forward:
  assumes "in_bounds e (forward_pos p (agent_dir e))"
  shows "wall_distance e p = Suc (wall_distance e (forward_pos p (agent_dir e)))"
    and "0 < wall_distance e (forward_pos p (agent_dir e))"
proof -
  obtain a b where p: "p = Pos a b" by (cases p)
  show "wall_distance e p = Suc (wall_distance e (forward_pos p (agent_dir e)))"
    using assms unfolding p by (cases "agent_dir e") (auto simp: wall_distance_def in_bounds_def)
  show "0 < wall_distance e (forward_pos p (agent_dir e))"
    using assms unfolding p by (cases "agent_dir e") (auto simp: wall_distance_def in_bounds_def)
qed

lemma shoot_arrow_fuel_enough:
  "0 < n \<Longrightarrow> wall_distance e p \<le> n \<Longrightarrow> shoot_arrow_fuel n e p = Some (shoot_arrow_loop e p)"
proof (induction n arbitrary: p)
  case 0
  then show ?case by simp
next
  case (Suc n)
  let ?p' = "forward_pos p (agent_dir e)"
  show ?case
  proof (cases "in_bounds e ?p' \<and> \<not> (?p' = wumpus_pos e \<and> wumpus_alive e)")
    case True
    then have inb: "in_bounds e ?p'" by simp
    from wall_distance_forward [OF inb] Suc.prems
    have "0 < n" "wall_distance e ?p' \<le> n" by simp_all
    then have "shoot_arrow_fuel n e ?p' = Some (shoot_arrow_loop e ?p')"
      by (rule Suc.IH)
    with True show ?thesis
      by (subst shoot_arrow_loop.simps) (auto simp: Let_def)
  next
    case False
    then show ?thesis
      by (subst shoot_arrow_loop.simps) (auto simp: Let_def)
  qed
qed

lemma wall_distance_in_bounds:
  assumes "in_bounds e p"
  shows "wall_distance e p \<le> nat (max (width e) (height e))"
    and "0 < nat (max (width e) (height e))"
  using assms by (cases "agent_dir e"; simp add: wall_distance_def in_bounds_def; linarith)+

section \<open>The claims\<close>

text \<open>
  C1 (as the code has it). \<open>__init__\<close> validates nothing. Construction fails exactly when
  there is no cell other than the start cell to sample from, that is when the width or the
  height is non-positive or the grid is \<open>1 \<times> 1\<close>, and then with the \<open>IndexError\<close> of
  \<open>rng.choice\<close>; with any other dimensions it succeeds for every pit probability, inside
  \<open>[0, 1]\<close> or not.
\<close>

theorem init_fails_exactly_without_non_start_cell:
  "(init w h allow pp g = Inl IndexError \<longleftrightarrow> w \<le> 0 \<or> h \<le> 0 \<or> (w = 1 \<and> h = 1)) \<and>
   ((\<exists>e. init w h allow pp g = Inr e) \<longleftrightarrow> 1 \<le> w \<and> 1 \<le> h \<and> (2 \<le> w \<or> 2 \<le> h))"
proof -
  have "(\<exists>e. init w h allow pp g = Inr e) \<longleftrightarrow> init w h allow pp g \<noteq> Inl IndexError"
  proof (cases "init w h allow pp g")
    case (Inl err)
    then show ?thesis by (cases err) simp
  next
    case (Inr e)
    then show ?thesis by simp
  qed
  then show ?thesis
    using init_fails_iff [of w h allow pp g] by auto
qed

text \<open>
  C1 as stated fails: with pit probability 2 on a \<open>2 \<times> 2\<close> grid construction succeeds,
  and every cell but the start cell is a pit.
\<close>

theorem init_pit_prob_2_counterexample:
  "init 2 2 True 2 [] =
     Inr \<lparr> width = 2, height = 2, allow_climb_without_gold = True, pit_prob = 2, rng = [],
           agent_pos = Pos 1 1, agent_dir = E, gold_pos = Pos 1 2, wumpus_pos = Pos 1 2,
           wumpus_alive = True, pits = {Pos 2 2, Pos 2 1, Pos 1 2}, has_gold = False,
           arrow_available = True, terminated = False, dead = False, last_bump = False,
           last_scream = False, steps = 0, total_reward = 0 \<rparr>"
  by (simp add: init_def random_non_start_pos_def rng_choice_def next_draw_def place_pits_def
        rng_random_def upto.simps)

text \<open>
  C2. In a running reachable state, when the agent stands on a pit or on the live wumpus
  after the dispatch of the action, the action was a \<open>FORWARD\<close> that moved (reward \<open>-1\<close> so
  far), the penalty of 1000 is applied once, so the step's reward is \<open>-1001\<close>, also when
  the cell holds both hazards, and \<open>dead\<close> and \<open>terminated\<close> are set.
\<close>

theorem step_death_penalty:
  assumes "reachable e" and "\<not> terminated e"
    and "execute_action a (begin_step e) (- 1) = (e2, r2)"
    and "agent_pos e2 \<in> pits e2 \<or> (agent_pos e2 = wumpus_pos e2 \<and> wumpus_alive e2)"
  shows "a = FORWARD \<and> r2 = - 1 \<and>
         reward (fst (step e a)) = - 1001 \<and>
         total_reward (snd (step e a)) = total_reward e - 1001 \<and>
         dead (snd (step e a)) \<and> terminated (snd (step e a))"
  using running_safe [OF assms(1,2)] assms(2,3,4)
  by (cases a)
    (auto simp: step_def begin_step_def execute_action_def death_check_def get_percept_def Let_def
          split: if_splits)

theorem step_death_penalty_witness:
  "reachable pit_world \<and> \<not> terminated pit_world \<and>
   execute_action FORWARD (begin_step pit_world) (- 1) =
     (begin_step pit_world\<lparr>agent_pos := Pos 2 1\<rparr>, - 1) \<and>
   Pos 2 1 \<in> pits pit_world \<and> Pos 2 1 = wumpus_pos pit_world \<and> wumpus_alive pit_world \<and>
   reward (fst (step pit_world FORWARD)) = - 1001 \<and>
   total_reward (snd (step pit_world FORWARD)) = - 1001 \<and>
   dead (snd (step pit_world FORWARD)) \<and> terminated (snd (step pit_world FORWARD))"
proof -
  have ex: "execute_action FORWARD (begin_step pit_world) (- 1) =
     (begin_step pit_world\<lparr>agent_pos := Pos 2 1\<rparr>, - 1)"
    by (simp add: pit_world_def begin_step_def execute_action_def in_bounds_def Let_def)
  have run: "\<not> terminated pit_world"
    by (simp add: pit_world_def)
  have hz: "agent_pos (begin_step pit_world\<lparr>agent_pos := Pos 2 1\<rparr>)
              \<in> pits (begin_step pit_world\<lparr>agent_pos := Pos 2 1\<rparr>) \<or>
            (agent_pos (begin_step pit_world\<lparr>agent_pos := Pos 2 1\<rparr>)
               = wumpus_pos (begin_step pit_world\<lparr>agent_pos := Pos 2 1\<rparr>) \<and>
             wumpus_alive (begin_step pit_world\<lparr>agent_pos := Pos 2 1\<rparr>))"
    by (simp add: pit_world_def begin_step_def)
  from step_death_penalty [OF reachable_pit_world run ex hz] reachable_pit_world run ex
  show ?thesis
    by (simp add: pit_world_def)
qed

text \<open>
  C3. Once \<open>terminated\<close> holds, \<open>step\<close> with any action returns the current percept
  with reward 0 and the state as it was: no component changes, \<open>steps\<close> and
  \<open>total_reward\<close> included.
\<close>

theorem step_terminated_noop:
  "terminated e \<Longrightarrow> step e a = (get_percept e 0, e) \<and> reward (fst (step e a)) = 0"
  by (simp add: step_def get_percept_def)

theorem step_terminated_noop_witness:
  "terminated (snd (step pit_world FORWARD)) \<and>
   step (snd (step pit_world FORWARD)) GRAB =
     (get_percept (snd (step pit_world FORWARD)) 0, snd (step pit_world FORWARD)) \<and>
   reward (fst (step (snd (step pit_world FORWARD)) GRAB)) = 0 \<and>
   steps (snd (step (snd (step pit_world FORWARD)) GRAB)) = 1 \<and>
   total_reward (snd (step (snd (step pit_world FORWARD)) GRAB)) = - 1001"
proof -
  have t: "terminated (snd (step pit_world FORWARD))"
    by (simp add: pit_world_def step_eval)
  have "steps (snd (step pit_world FORWARD)) = 1"
       "total_reward (snd (step pit_world FORWARD)) = - 1001"
    by (simp_all add: pit_world_def step_eval)
  with step_terminated_noop [OF t, of GRAB] t show ?thesis
    by (simp add: get_percept_def)
qed

text \<open>
  C4. In a running reachable state \<open>CLIMB\<close> ends the episode iff the agent is at
  \<open>(1, 1)\<close> and climbing without gold is allowed or the agent has the gold; the reward of
  a climb that ends the episode is \<open>-1\<close>, plus 1000 exactly when the agent has the gold, and
  the agent is not dead.
\<close>

theorem step_climb:
  assumes "reachable e" and "\<not> terminated e"
  shows "(terminated (snd (step e CLIMB)) \<longleftrightarrow>
            agent_pos e = Pos 1 1 \<and> (allow_climb_without_gold e \<or> has_gold e)) \<and>
         (terminated (snd (step e CLIMB)) \<longrightarrow>
            reward (fst (step e CLIMB)) = (if has_gold e then 999 else - 1) \<and>
            \<not> dead (snd (step e CLIMB)))"
  using running_safe [OF assms] assms(2)
  by (auto simp: step_def begin_step_def execute_action_def death_check_def get_percept_def Let_def)

theorem step_climb_witness:
  "reachable (run_actions quiet_world [FORWARD, GRAB, TURN_LEFT, TURN_LEFT, FORWARD]) \<and>
   \<not> terminated (run_actions quiet_world [FORWARD, GRAB, TURN_LEFT, TURN_LEFT, FORWARD]) \<and>
   agent_pos (run_actions quiet_world [FORWARD, GRAB, TURN_LEFT, TURN_LEFT, FORWARD]) = Pos 1 1 \<and>
   has_gold (run_actions quiet_world [FORWARD, GRAB, TURN_LEFT, TURN_LEFT, FORWARD]) \<and>
   terminated (snd (step (run_actions quiet_world [FORWARD, GRAB, TURN_LEFT, TURN_LEFT, FORWARD]) CLIMB)) \<and>
   reward (fst (step (run_actions quiet_world [FORWARD, GRAB, TURN_LEFT, TURN_LEFT, FORWARD]) CLIMB)) = 999 \<and>
   \<not> dead (snd (step (run_actions quiet_world [FORWARD, GRAB, TURN_LEFT, TURN_LEFT, FORWARD]) CLIMB))"
proof -
  let ?e = "run_actions quiet_world [FORWARD, GRAB, TURN_LEFT, TURN_LEFT, FORWARD]"
  have r: "reachable ?e"
    using reachable_quiet_world by (rule reachable_run_actions)
  have e: "?e = quiet_world\<lparr>agent_dir := W, has_gold := True, steps := 5, total_reward := - 5\<rparr>"
    by (simp add: quiet_world_def step_eval)
  have run: "\<not> terminated ?e" "agent_pos ?e = Pos 1 1" "has_gold ?e"
    unfolding e by (simp_all add: quiet_world_def)
  from step_climb [OF r run(1)] r run show ?thesis
    by simp
qed

text \<open>
  C5. In every reachable state the agent is on the grid, and it is after any action. A
  \<open>FORWARD\<close> towards a cell off the grid leaves the agent where it is and reports a bump;
  the episode goes on, the flag is cleared when the next step begins, and the next percept
  reports a bump only if that step is again a \<open>FORWARD\<close> (the agent still faces the wall).
\<close>

theorem agent_stays_in_bounds:
  assumes "reachable e"
  shows "in_bounds e (agent_pos e) \<and>
         in_bounds (snd (step e a)) (agent_pos (snd (step e a))) \<and>
         1 \<le> pos_x (agent_pos (snd (step e a))) \<and>
         pos_x (agent_pos (snd (step e a))) \<le> width e \<and>
         1 \<le> pos_y (agent_pos (snd (step e a))) \<and>
         pos_y (agent_pos (snd (step e a))) \<le> height e \<and>
         (\<not> terminated e \<and> \<not> in_bounds e (forward_pos (agent_pos e) (agent_dir e)) \<longrightarrow>
            agent_pos (snd (step e FORWARD)) = agent_pos e \<and>
            bump (fst (step e FORWARD)) \<and>
            \<not> terminated (snd (step e FORWARD)) \<and>
            \<not> last_bump (begin_step (snd (step e FORWARD))) \<and>
            (\<forall>a'. bump (fst (step (snd (step e FORWARD)) a')) \<longleftrightarrow> a' = FORWARD))"
proof -
  have wh: "width (snd (step e a)) = width e" "height (snd (step e a)) = height e"
    by (cases a; simp add: step_def begin_step_def execute_action_def death_check_def Let_def)+
  have inv: "env_inv e" "env_inv (snd (step e a))"
    using assms reachable_inv reachable_step by blast+
  then have bounds: "in_bounds e (agent_pos e)" "in_bounds (snd (step e a)) (agent_pos (snd (step e a)))"
    by (simp_all add: env_inv_def)
  have bumped: "agent_pos (snd (step e FORWARD)) = agent_pos e \<and>
            bump (fst (step e FORWARD)) \<and>
            \<not> terminated (snd (step e FORWARD)) \<and>
            \<not> last_bump (begin_step (snd (step e FORWARD))) \<and>
            (\<forall>a'. bump (fst (step (snd (step e FORWARD)) a')) \<longleftrightarrow> a' = FORWARD)"
    if run: "\<not> terminated e" and out: "\<not> in_bounds e (forward_pos (agent_pos e) (agent_dir e))"
  proof -
    let ?e' = "snd (step e FORWARD)"
    have e': "?e' = e\<lparr>steps := steps e + 1, last_bump := True, last_scream := False,
                      total_reward := total_reward e - 1\<rparr>"
      using running_safe [OF assms run] run out
      by (auto simp: step_def begin_step_def execute_action_def death_check_def Let_def)
    have r': "reachable ?e'" using assms by (rule reachable_step)
    have run': "\<not> terminated ?e'" using run by (simp add: e')
    have out': "\<not> in_bounds ?e' (forward_pos (agent_pos ?e') (agent_dir ?e'))"
      using out by (simp add: e')
    have "bump (fst (step ?e' a')) \<longleftrightarrow> a' = FORWARD" for a'
      using step_bump_iff [OF r' run', of a'] out' by simp
    moreover have "bump (fst (step e FORWARD))"
      using step_bump_iff [OF assms run, of FORWARD] out by simp
    ultimately show ?thesis
      using run' by (simp add: e' begin_step_def)
  qed
  from bounds wh bumped show ?thesis
    by (simp add: in_bounds_def)
qed

theorem agent_stays_in_bounds_witness:
  "reachable (snd (step quiet_world TURN_RIGHT)) \<and>
   \<not> terminated (snd (step quiet_world TURN_RIGHT)) \<and>
   forward_pos (agent_pos (snd (step quiet_world TURN_RIGHT)))
     (agent_dir (snd (step quiet_world TURN_RIGHT))) = Pos 1 0 \<and>
   \<not> in_bounds (snd (step quiet_world TURN_RIGHT)) (Pos 1 0) \<and>
   agent_pos (snd (step (snd (step quiet_world TURN_RIGHT)) FORWARD)) = Pos 1 1 \<and>
   in_bounds (snd (step (snd (step quiet_world TURN_RIGHT)) FORWARD)) (Pos 1 1) \<and>
   bump (fst (step (snd (step quiet_world TURN_RIGHT)) FORWARD)) \<and>
   \<not> bump (fst (step (snd (step (snd (step quiet_world TURN_RIGHT)) FORWARD)) TURN_LEFT))"
proof -
  let ?e = "snd (step quiet_world TURN_RIGHT)"
  have e: "?e = quiet_world\<lparr>agent_dir := S, steps := 1, total_reward := - 1\<rparr>"
    by (simp add: quiet_world_def step_def begin_step_def execute_action_def death_check_def
          Let_def)
  have r: "reachable ?e"
    using reachable_quiet_world by (rule reachable_step)
  have facts: "\<not> terminated ?e" "agent_pos ?e = Pos 1 1"
    "forward_pos (agent_pos ?e) (agent_dir ?e) = Pos 1 0" "\<not> in_bounds ?e (Pos 1 0)"
    unfolding e by (simp_all add: quiet_world_def in_bounds_def)
  have out: "\<not> terminated ?e \<and> \<not> in_bounds ?e (forward_pos (agent_pos ?e) (agent_dir ?e))"
    using facts by simp
  from agent_stays_in_bounds [OF r, of FORWARD] out
  have after: "in_bounds (snd (step ?e FORWARD)) (agent_pos (snd (step ?e FORWARD)))"
    "agent_pos (snd (step ?e FORWARD)) = agent_pos ?e"
    "bump (fst (step ?e FORWARD))"
    "\<forall>a'. bump (fst (step (snd (step ?e FORWARD)) a')) \<longleftrightarrow> a' = FORWARD"
    by blast+
  from after(4) have "\<not> bump (fst (step (snd (step ?e FORWARD)) TURN_LEFT))"
    by simp
  with after(1,2,3) r facts show ?thesis
    by simp
qed

text \<open>
  C6. In a running reachable state without the arrow, \<open>SHOOT\<close> costs the step's \<open>-1\<close>
  and nothing more: the state changes in \<open>steps\<close>, \<open>total_reward\<close> and the cleared
  transient flags only, there is no scream and the arrow stays spent.
\<close>

theorem step_shoot_without_arrow:
  assumes "reachable e" and "\<not> terminated e" and "\<not> arrow_available e"
  shows "snd (step e SHOOT) =
           e\<lparr>steps := steps e + 1, last_bump := False, last_scream := False,
             total_reward := total_reward e - 1\<rparr> \<and>
         reward (fst (step e SHOOT)) = - 1 \<and>
         \<not> scream (fst (step e SHOOT)) \<and>
         \<not> arrow_available (snd (step e SHOOT))"
  using running_safe [OF assms(1,2)] assms(2,3)
  by (auto simp: step_def begin_step_def execute_action_def death_check_def get_percept_def Let_def)

theorem step_shoot_without_arrow_witness:
  "reachable (snd (step quiet_world SHOOT)) \<and>
   \<not> terminated (snd (step quiet_world SHOOT)) \<and>
   \<not> arrow_available (snd (step quiet_world SHOOT)) \<and>
   reward (fst (step quiet_world SHOOT)) = - 11 \<and>
   reward (fst (step (snd (step quiet_world SHOOT)) SHOOT)) = - 1 \<and>
   \<not> scream (fst (step (snd (step quiet_world SHOOT)) SHOOT)) \<and>
   snd (step (snd (step quiet_world SHOOT)) SHOOT) =
     quiet_world\<lparr>arrow_available := False, steps := 2, total_reward := - 12\<rparr>"
proof -
  let ?e = "snd (step quiet_world SHOOT)"
  have miss: "\<not> shoot_arrow (quiet_world\<lparr>steps := 1, arrow_available := False\<rparr>)"
    unfolding shoot_arrow_def
    by (subst shoot_arrow_loop.simps, simp add: quiet_world_def in_bounds_def Let_def)+
  have first: "step quiet_world SHOOT =
      (get_percept (quiet_world\<lparr>arrow_available := False, steps := 1, total_reward := - 11\<rparr>) (- 11),
       quiet_world\<lparr>arrow_available := False, steps := 1, total_reward := - 11\<rparr>)"
    using miss
    by (simp add: quiet_world_def step_def begin_step_def execute_action_def death_check_def
          Let_def)
  have r: "reachable ?e"
    using reachable_quiet_world by (rule reachable_step)
  have run: "\<not> terminated ?e" and used: "\<not> arrow_available ?e"
    unfolding first by (simp_all add: quiet_world_def)
  from step_shoot_without_arrow [OF r run used] r run used show ?thesis
    unfolding first by (simp add: quiet_world_def get_percept_def)
qed

text \<open>
  C7. The stench flag of a percept, from \<open>get_percept\<close> or from \<open>step\<close>, is set iff the
  wumpus is in the agent's cell, or is on the grid and in one of the four cells
  \<open>(x + 1, y)\<close>, \<open>(x - 1, y)\<close>, \<open>(x, y + 1)\<close>, \<open>(x, y - 1)\<close> around the agent's cell
  \<open>(x, y)\<close>. \<open>step\<close> moves neither the wumpus nor the walls, and whether the wumpus is alive
  makes no difference.
\<close>

theorem stench_iff_wumpus_near:
  "(stench (get_percept e r) \<longleftrightarrow>
      wumpus_pos e = agent_pos e \<or>
      (1 \<le> pos_x (wumpus_pos e) \<and> pos_x (wumpus_pos e) \<le> width e \<and>
       1 \<le> pos_y (wumpus_pos e) \<and> pos_y (wumpus_pos e) \<le> height e \<and>
       wumpus_pos e \<in>
         {Pos (pos_x (agent_pos e) + 1) (pos_y (agent_pos e)),
          Pos (pos_x (agent_pos e) - 1) (pos_y (agent_pos e)),
          Pos (pos_x (agent_pos e)) (pos_y (agent_pos e) + 1),
          Pos (pos_x (agent_pos e)) (pos_y (agent_pos e) - 1)})) \<and>
   (stench (fst (step e a)) \<longleftrightarrow>
      wumpus_pos e = agent_pos (snd (step e a)) \<or>
      (1 \<le> pos_x (wumpus_pos e) \<and> pos_x (wumpus_pos e) \<le> width e \<and>
       1 \<le> pos_y (wumpus_pos e) \<and> pos_y (wumpus_pos e) \<le> height e \<and>
       wumpus_pos e \<in>
         {Pos (pos_x (agent_pos (snd (step e a))) + 1) (pos_y (agent_pos (snd (step e a)))),
          Pos (pos_x (agent_pos (snd (step e a))) - 1) (pos_y (agent_pos (snd (step e a)))),
          Pos (pos_x (agent_pos (snd (step e a)))) (pos_y (agent_pos (snd (step e a))) + 1),
          Pos (pos_x (agent_pos (snd (step e a)))) (pos_y (agent_pos (snd (step e a))) - 1)})) \<and>
   wumpus_pos (snd (step e a)) = wumpus_pos e \<and>
   width (snd (step e a)) = width e \<and> height (snd (step e a)) = height e \<and>
   stench (get_percept (e\<lparr>wumpus_alive := b\<rparr>) r) = stench (get_percept e r)"
proof -
  have now: "stench (get_percept e' r') = stench_at e' (agent_pos e')" for e' r'
    by (simp add: get_percept_def)
  have "stench (fst (step e a)) = stench_at (snd (step e a)) (agent_pos (snd (step e a)))"
    by (subst step_percept) (simp add: get_percept_def)
  then have after: "stench (fst (step e a)) \<longleftrightarrow>
      wumpus_pos e = agent_pos (snd (step e a)) \<or>
      (1 \<le> pos_x (wumpus_pos e) \<and> pos_x (wumpus_pos e) \<le> width e \<and>
       1 \<le> pos_y (wumpus_pos e) \<and> pos_y (wumpus_pos e) \<le> height e \<and>
       wumpus_pos e \<in>
         {Pos (pos_x (agent_pos (snd (step e a))) + 1) (pos_y (agent_pos (snd (step e a)))),
          Pos (pos_x (agent_pos (snd (step e a))) - 1) (pos_y (agent_pos (snd (step e a)))),
          Pos (pos_x (agent_pos (snd (step e a)))) (pos_y (agent_pos (snd (step e a))) + 1),
          Pos (pos_x (agent_pos (snd (step e a)))) (pos_y (agent_pos (snd (step e a))) - 1)})"
    by (simp only: stench_at_cells step_frame)
  have alive: "stench (get_percept (e\<lparr>wumpus_alive := b\<rparr>) r) = stench (get_percept e r)"
    by (simp add: now stench_at_cells)
  from after alive show ?thesis
    by (simp only: now stench_at_cells step_frame simp_thms)
qed

text \<open>
  An instance: the agent shoots the wumpus in the cell in front of it; the percept of that
  step has both the scream and the stench, and the stench stays although the wumpus is
  dead. With the wumpus in the diagonal cell there is no stench.
\<close>

theorem stench_iff_wumpus_near_witness:
  "scream (fst (step pit_world SHOOT)) \<and>
   \<not> wumpus_alive (snd (step pit_world SHOOT)) \<and>
   \<not> terminated (snd (step pit_world SHOOT)) \<and>
   agent_pos (snd (step pit_world SHOOT)) = Pos 1 1 \<and>
   wumpus_pos (snd (step pit_world SHOOT)) = Pos 2 1 \<and>
   stench (fst (step pit_world SHOOT)) \<and>
   stench (get_percept (snd (step pit_world SHOOT)) 0) \<and>
   \<not> stench (get_percept (pit_world\<lparr>wumpus_pos := Pos 2 2\<rparr>) 0)"
proof -
  have hit: "shoot_arrow (pit_world\<lparr>steps := 1, arrow_available := False\<rparr>)"
    unfolding shoot_arrow_def
    by (subst shoot_arrow_loop.simps) (simp add: pit_world_def in_bounds_def Let_def)
  have shot: "snd (step pit_world SHOOT) =
      pit_world\<lparr>wumpus_alive := False, arrow_available := False, last_scream := True,
                steps := 1, total_reward := - 11\<rparr>"
    using hit
    by (simp add: pit_world_def step_def begin_step_def execute_action_def death_check_def
          Let_def)
  have facts: "\<not> wumpus_alive (snd (step pit_world SHOOT))"
    "\<not> terminated (snd (step pit_world SHOOT))"
    "agent_pos (snd (step pit_world SHOOT)) = Pos 1 1"
    "wumpus_pos (snd (step pit_world SHOOT)) = Pos 2 1"
    "last_scream (snd (step pit_world SHOOT))"
    unfolding shot by (simp_all add: pit_world_def)
  have scr: "scream (fst (step pit_world SHOOT))"
    by (subst step_percept) (simp add: get_percept_def facts)
  have s1: "stench (fst (step pit_world SHOOT))"
    using stench_iff_wumpus_near [of pit_world 0 SHOOT True] facts
    by (simp add: pit_world_def)
  have s2: "stench (get_percept (snd (step pit_world SHOOT)) 0)"
    using stench_iff_wumpus_near [of "snd (step pit_world SHOOT)" 0 SHOOT True]
    unfolding shot by (simp add: pit_world_def)
  have s3: "\<not> stench (get_percept (pit_world\<lparr>wumpus_pos := Pos 2 2\<rparr>) 0)"
    using stench_iff_wumpus_near [of "pit_world\<lparr>wumpus_pos := Pos 2 2\<rparr>" 0 SHOOT True]
    by (simp add: pit_world_def)
  from scr facts s1 s2 s3 show ?thesis
    by simp
qed

text \<open>
  C8. The glitter flag of a percept, from \<open>get_percept\<close> or from \<open>step\<close>, is set iff the
  agent is in the gold's cell; whether the gold has been grabbed makes no difference.
\<close>

theorem glitter_iff_on_gold:
  "(glitter (get_percept e r) \<longleftrightarrow> agent_pos e = gold_pos e) \<and>
   (glitter (fst (step e a)) \<longleftrightarrow> agent_pos (snd (step e a)) = gold_pos (snd (step e a))) \<and>
   glitter (get_percept (e\<lparr>has_gold := b\<rparr>) r) = glitter (get_percept e r)"
proof -
  have "glitter (fst (step e a)) \<longleftrightarrow> agent_pos (snd (step e a)) = gold_pos (snd (step e a))"
    by (subst step_percept) (simp add: get_percept_def)
  then show ?thesis
    by (simp add: get_percept_def)
qed

text \<open>
  C9. A \<open>1 \<times> 1\<close> environment cannot be constructed: whatever the other arguments,
  sampling the gold from the empty list of cells raises \<open>IndexError\<close>.
\<close>

theorem init_1x1_fails: "init 1 1 allow pp g = Inl IndexError"
  using init_fails_iff [of 1 1 allow pp g] by simp

text \<open>
  C10. From a position on the grid the ray trace returns within \<open>max width height\<close>
  rounds of its loop, with the answer of \<open>shoot_arrow\<close>, whose loop is a total function by
  the decreasing distance to the wall.
\<close>

theorem shoot_arrow_terminates:
  assumes "in_bounds e (agent_pos e)"
  shows "shoot_arrow_fuel (nat (max (width e) (height e))) e (agent_pos e) = Some (shoot_arrow e)"
  unfolding shoot_arrow_def
  using wall_distance_in_bounds [OF assms] by (simp add: shoot_arrow_fuel_enough)

theorem shoot_arrow_terminates_witness:
  "in_bounds pit_world (agent_pos pit_world) \<and>
   nat (max (width pit_world) (height pit_world)) = 2 \<and>
   shoot_arrow_fuel 2 pit_world (agent_pos pit_world) = Some True \<and>
   shoot_arrow pit_world"
proof -
  have inb: "in_bounds pit_world (agent_pos pit_world)"
    by (simp add: pit_world_def in_bounds_def)
  have two: "nat (max (width pit_world) (height pit_world)) = 2"
    by (simp add: pit_world_def)
  have hit: "shoot_arrow_fuel 2 pit_world (agent_pos pit_world) = Some True"
    by (simp add: pit_world_def in_bounds_def numeral_2_eq_2)
  from shoot_arrow_terminates [OF inb] inb two hit show ?thesis
    by simp
qed

end
